theory Spec2Isabelle
  imports Main
begin

section \<open>Python strings\<close>

text \<open>
  A Python \<open>str\<close> is a sequence of Unicode code points, and \<open>len\<close> counts code points.
  A string is therefore a list of code points (natural numbers); \<open>py\<close> reads an ASCII
  literal.  The ellipsis U+2026 that the blurb code appends is one code point, 8230.
\<close>

type_synonym pystr = "nat list"

definition py :: "string \<Rightarrow> pystr" where
  "py s = map of_char s"

definition SP :: nat where "SP = 32"
definition NL :: nat where "NL = 10"
definition AT :: nat where "AT = 64"
definition SLASH :: nat where "SLASH = 47"
definition ELLIPSIS :: nat where "ELLIPSIS = 8230"

text \<open>
  \<open>str.isspace\<close>, which is also what \<open>str.strip()\<close>, \<open>str.split()\<close> and the regular
  expression class \<open>\s\<close> use on \<open>str\<close> patterns.
\<close>

definition isspace :: "nat \<Rightarrow> bool" where
  "isspace c \<longleftrightarrow>
     (9 \<le> c \<and> c \<le> 13) \<or> (28 \<le> c \<and> c \<le> 32) \<or> c = 133 \<or> c = 160 \<or> c = 5760 \<or>
     (8192 \<le> c \<and> c \<le> 8202) \<or> c = 8232 \<or> c = 8233 \<or> c = 8239 \<or> c = 8287 \<or> c = 12288"

text \<open>\<open>s.strip()\<close>\<close>

definition strip :: "pystr \<Rightarrow> pystr" where
  "strip s = rev (dropWhile isspace (rev (dropWhile isspace s)))"

text \<open>\<open>s.strip('/')\<close> for a one-character argument\<close>

definition strip_char :: "nat \<Rightarrow> pystr \<Rightarrow> pystr" where
  "strip_char d s = rev (dropWhile (\<lambda>c. c = d) (rev (dropWhile (\<lambda>c. c = d) s)))"

text \<open>
  \<open>s.lower()\<close> folds every cased code point with the case tables of Unicode and may
  change the length of a string.  It is a library function and a parameter of the model,
  the field \<open>str_lower\<close> of the library record below; nothing is assumed about it.
\<close>

text \<open>\<open>s.startswith(p)\<close>\<close>

definition startswith :: "pystr \<Rightarrow> pystr \<Rightarrow> bool" where
  "startswith s p \<longleftrightarrow> take (length p) s = p"

text \<open>\<open>p in s\<close> on strings: \<open>p\<close> occurs in \<open>s\<close> as a contiguous substring\<close>

fun contains :: "pystr \<Rightarrow> pystr \<Rightarrow> bool" where
  "contains [] p = (p = [])"
| "contains (c # cs) p = (startswith (c # cs) p \<or> contains cs p)"

text \<open>\<open>re.sub(r'\s+', ' ', s)\<close>: every maximal run of whitespace becomes one space\<close>

function collapse_ws :: "pystr \<Rightarrow> pystr" where
  "collapse_ws [] = []"
| "collapse_ws (c # cs) =
     (if isspace c then SP # collapse_ws (dropWhile isspace cs) else c # collapse_ws cs)"
  by pat_completeness auto
termination
  by (relation "measure length") (auto simp: length_dropWhile_le le_imp_less_Suc)

text \<open>\<open>s.split()\<close>: the maximal runs of non-whitespace\<close>

function split_ws :: "pystr \<Rightarrow> pystr list" where
  "split_ws [] = []"
| "split_ws (c # cs) =
     (if isspace c then split_ws cs
      else (c # takeWhile (\<lambda>x. \<not> isspace x) cs) # split_ws (dropWhile (\<lambda>x. \<not> isspace x) cs))"
  by pat_completeness auto
termination
  by (relation "measure length") (auto simp: length_dropWhile_le le_imp_less_Suc)

text \<open>\<open>s.split(d)\<close> for a one-character separator: never empty, \<open>''.split(d) == ['']\<close>\<close>

fun split_on :: "nat \<Rightarrow> pystr \<Rightarrow> pystr list" where
  "split_on d [] = [[]]"
| "split_on d (c # cs) =
     (if c = d then [] # split_on d cs
      else (case split_on d cs of [] \<Rightarrow> [[c]] | w # ws \<Rightarrow> (c # w) # ws))"

text \<open>\<open>s.rsplit(d, 1)[0]\<close>: what precedes the last \<open>d\<close>, or all of \<open>s\<close> when it has none\<close>

definition rsplit1_head :: "nat \<Rightarrow> pystr \<Rightarrow> pystr" where
  "rsplit1_head d s =
     (if d \<in> set s then rev (tl (dropWhile (\<lambda>c. c \<noteq> d) (rev s))) else s)"

text \<open>\<open>sep.join(xs)\<close>\<close>

fun join :: "pystr \<Rightarrow> pystr list \<Rightarrow> pystr" where
  "join sep [] = []"
| "join sep [x] = x"
| "join sep (x # y # ys) = x @ sep @ join sep (y # ys)"

section \<open>Library functions taken as parameters\<close>

text \<open>
  Two functions of the standard library rest on tables that are not part of this
  program: \<open>str.lower\<close>, and \<open>urlparse(u).path\<close>, which may raise \<open>ValueError\<close> (the
  value \<open>None\<close> here; both callers catch it).  Every function below that calls one of them
  takes this record, and every theorem holds for every such pair of functions.
\<close>

record pylib =
  str_lower :: "pystr \<Rightarrow> pystr"
  urlparse_path :: "pystr \<Rightarrow> pystr option"


section \<open>Constants of \<open>extractor.py\<close> and \<open>config.py\<close>\<close>

definition PAYWALL_PHRASES :: "pystr list" where
  "PAYWALL_PHRASES = map py
     [''subscribe to read'', ''paywall'', ''premium content'',
      ''unlock this article'', ''sign up to continue'', ''member only'',
      ''paid subscribers only'', ''read the full article'', ''continue reading'',
      ''behind a paywall'', ''premium member'', ''subscription required'']"

definition NOISE_PATH_SEGMENTS :: "pystr set" where
  "NOISE_PATH_SEGMENTS = set (map py
     [''disclaimer'', ''legal'', ''terms'', ''privacy'', ''cookie'',
      ''unsubscribe'', ''preferences'', ''settings'', ''about'',
      ''contact'', ''careers'', ''investors'', ''ir'', ''press'',
      ''login'', ''signup'', ''register'', ''help'', ''support'',
      ''faq'', ''sitemap'', ''robots'', ''policy'', ''policies''])"

definition NOISE_ANCHOR_PHRASES :: "pystr list" where
  "NOISE_ANCHOR_PHRASES = map py
     [''disclaimer'', ''terms of'', ''privacy policy'', ''cookie'',
      ''unsubscribe'', ''view in browser'', ''read in browser'',
      ''click here to unsubscribe'', ''manage preferences'',
      ''forward this email'', ''view online'', ''web version'']"

definition MAX_BLURB_CHARS :: nat where
  "MAX_BLURB_CHARS = 600"

text \<open>The tuple that both \<open>_is_noise_url\<close> and \<open>_score_link\<close> loop over as \<open>domain\<close>.\<close>

definition NOISE_DOMAINS :: "pystr list" where
  "NOISE_DOMAINS = map py
     [''twitter.com'', ''facebook.com'', ''instagram.com'',
      ''linkedin.com'', ''youtube.com'', ''mailto:'', ''javascript:'']"

definition article_signals :: "pystr list" where
  "article_signals = map py
     [''article'', ''post'', ''story'', ''news'', ''blog'', ''opinion'', ''analysis'']"

definition BLOCK_TAGS :: "pystr list" where
  "BLOCK_TAGS = map py [''td'', ''div'', ''section'', ''article'', ''li'', ''p'']"

definition MIN_WORD_COUNT :: nat where
  "MIN_WORD_COUNT = 100"

definition ESSAY_NEWSLETTERS :: "pystr list" where
  "ESSAY_NEWSLETTERS = map py [''stratechery'', ''hanania'', ''clouded judgement'', ''dwarkesh'']"

definition HTTP :: pystr where "HTTP = py ''http''"
definition ESSAY :: pystr where "ESSAY = py ''essay''"
definition LINK :: pystr where "LINK = py ''link''"
definition NEWSLETTER :: pystr where "NEWSLETTER = py ''Newsletter''"

section \<open>The parsed document\<close>

text \<open>
  \<open>BeautifulSoup(html, 'html.parser')\<close> is a library call; the extractor receives its
  result, a tree of strings and tags.  A tag has a name, a dictionary of attributes and a
  list of children.  The parser itself is a parameter of \<open>extract_from_email\<close> below; the
  tree operations the extractor calls are the ones that follow.  A string is the node
  without a name and without \<open>find_all\<close>: the tests \<open>hasattr(element, 'name')\<close> and
  \<open>hasattr(element, 'find_all')\<close> of the extractor tell strings from tags.

  The parser gives every string a class: \<open>NavigableString\<close> for ordinary text, and
  subclasses for comments, the doctype, declarations, processing instructions, CDATA
  sections and the text inside \<open>style\<close>, \<open>script\<close>, \<open>template\<close>, \<open>rt\<close> and \<open>rp\<close>.
\<close>

datatype string_kind =
  NavigableString | CData | Comment | Doctype | Declaration | ProcessingInstruction
  | Stylesheet | Script | TemplateString | RubyTextString | RubyParenthesisString

datatype node = Text string_kind pystr | Tag pystr "(pystr \<times> pystr) list" "node list"

fun name_of :: "node \<Rightarrow> pystr option" where
  "name_of (Text k s) = None"
| "name_of (Tag n at cs) = Some n"

fun children :: "node \<Rightarrow> node list" where
  "children (Text k s) = []"
| "children (Tag n at cs) = cs"

text \<open>\<open>tag['href']\<close> when the attribute is there, \<open>None\<close> when \<open>href=True\<close> would not match\<close>

fun href :: "node \<Rightarrow> pystr option" where
  "href (Text k s) = None"
| "href (Tag n at cs) = map_of at (py ''href'')"

text \<open>
  Every proper descendant of a node in document order, each with its chain of parents,
  the nearest first; \<open>anc\<close> is the chain of the node itself.
\<close>

fun descendants :: "node list \<Rightarrow> node \<Rightarrow> (node \<times> node list) list" where
  "descendants anc (Text k s) = []"
| "descendants anc (Tag n at cs) =
     concat (map (\<lambda>c. (c, Tag n at cs # anc) # descendants (Tag n at cs # anc) c) cs)"

text \<open>\<open>element.find_all('a', href=True)\<close>, each anchor with its parents\<close>

definition is_anchor :: "node \<Rightarrow> bool" where
  "is_anchor e \<longleftrightarrow> name_of e = Some (py ''a'') \<and> href e \<noteq> None"

definition find_all_a :: "node \<Rightarrow> (node \<times> node list) list" where
  "find_all_a e = filter (\<lambda>(x, anc). is_anchor x) (descendants [] e)"

text \<open>\<open>soup.find('body') or soup\<close>: a tag is always truthy\<close>

definition find_body :: "node \<Rightarrow> node" where
  "find_body soup =
     (case filter (\<lambda>x. name_of x = Some (py ''body'')) (map fst (descendants [] soup)) of
        [] \<Rightarrow> soup
      | b # _ \<Rightarrow> b)"

text \<open>The strings below a node in document order, each with its class\<close>

fun strings :: "node \<Rightarrow> (string_kind \<times> pystr) list" where
  "strings (Text k s) = [(k, s)]"
| "strings (Tag n at cs) = concat (map strings cs)"

text \<open>
  The classes of string that \<open>get_text\<close> collects below an element: the one class that
  belongs to a \<open>style\<close>, \<open>script\<close>, \<open>template\<close>, \<open>rt\<close> or \<open>rp\<close> tag when the element is
  such a tag, and otherwise ordinary text and CDATA.  Comments, the doctype and the text
  of a style or script nested below an ordinary tag are left out.
\<close>

definition interesting_string_types :: "node \<Rightarrow> string_kind list" where
  "interesting_string_types e =
     (if name_of e = Some (py ''rt'') then [RubyTextString]
      else if name_of e = Some (py ''rp'') then [RubyParenthesisString]
      else if name_of e = Some (py ''style'') then [Stylesheet]
      else if name_of e = Some (py ''script'') then [Script]
      else if name_of e = Some (py ''template'') then [TemplateString]
      else [NavigableString, CData])"

text \<open>
  \<open>element.get_text(separator=sep, strip=True)\<close>: the strings of an interesting class,
  each stripped, the empty ones dropped, joined by the separator
\<close>

definition get_text :: "pystr \<Rightarrow> node \<Rightarrow> pystr" where
  "get_text sep e =
     join sep
       (filter (\<lambda>s. s \<noteq> [])
          (map (\<lambda>(k, s). strip s)
             (filter (\<lambda>(k, s). k \<in> set (interesting_string_types e)) (strings e))))"

section \<open>Noise filter and link score\<close>

definition path_parts_of :: "pylib \<Rightarrow> pystr \<Rightarrow> pystr list" where
  "path_parts_of L lower_url =
     (case urlparse_path L lower_url of
        None \<Rightarrow> []
      | Some p \<Rightarrow> split_on SLASH (strip_char SLASH p))"

definition is_noise_url :: "pylib \<Rightarrow> pystr \<Rightarrow> pystr \<Rightarrow> bool" where
  "is_noise_url L url anchor_text =
     (let lower_url = str_lower L url;
          lower_text = str_lower L anchor_text
      in if list_ex (\<lambda>domain. contains lower_url domain) NOISE_DOMAINS then True
         else let path_parts = path_parts_of L lower_url
              in if list_ex (\<lambda>seg. seg \<in> NOISE_PATH_SEGMENTS) path_parts then True
                 else if list_ex (\<lambda>phrase. contains lower_text phrase) NOISE_ANCHOR_PHRASES
                      then True
                      else False)"

definition score_link :: "pylib \<Rightarrow> pystr \<Rightarrow> pystr \<Rightarrow> nat" where
  "score_link L url anchor_text =
     (let lower_url = str_lower L url;
          lower_text = str_lower L anchor_text
      in if list_ex (\<lambda>domain. contains lower_url domain) NOISE_DOMAINS then 0
         else let path_parts = path_parts_of L lower_url
              in if list_ex (\<lambda>seg. seg \<in> NOISE_PATH_SEGMENTS) path_parts then 0
                 else if list_ex (\<lambda>phrase. contains lower_text phrase) NOISE_ANCHOR_PHRASES
                      then 0
                 else let score = 1;
                          words = length (split_ws anchor_text);
                          score = (if words \<ge> 4 then score + 3
                                   else if words \<ge> 2 then score + 1 else score);
                          depth = length (filter (\<lambda>p. p \<noteq> []) path_parts);
                          score = (if depth \<ge> 3 then score + 2
                                   else if depth \<ge> 2 then score + 1 else score);
                          score = (if list_ex (\<lambda>sig. contains lower_url sig) article_signals
                                   then score + 2 else score)
                      in score)"

text \<open>\<open>_best_link_in\<close>: the loop over the anchors, then the method\<close>

fun best_link_loop ::
  "pylib \<Rightarrow> node list \<Rightarrow> pystr option \<Rightarrow> nat \<Rightarrow> pystr option" where
  "best_link_loop L [] best_url best_score = best_url"
| "best_link_loop L (a # as) best_url best_score =
     (let url = strip (case href a of None \<Rightarrow> [] | Some h \<Rightarrow> h)
      in if \<not> startswith url HTTP then best_link_loop L as best_url best_score
         else let text = get_text [] a;
                  score = score_link L url text
              in if score > best_score then best_link_loop L as (Some url) score
                 else best_link_loop L as best_url best_score)"

definition best_link_in :: "pylib \<Rightarrow> node \<Rightarrow> pystr option" where
  "best_link_in L element =
     (case element of
        Text k s \<Rightarrow> None
      | Tag n at cs \<Rightarrow> best_link_loop L (map fst (find_all_a element)) None 0)"


section \<open>Articles\<close>

text \<open>
  An article is a dictionary.  The strategies create it with eight keys; the facade adds
  five more, which are \<open>None\<close> here until then.
\<close>

record article =
  title :: pystr
  url :: pystr
  content :: pystr
  blurb :: pystr
  content_snippet :: pystr
  word_count :: nat
  author :: "pystr option"
  publish_date :: "pystr option"
  newsletter_name :: "pystr option"
  newsletter_email :: "pystr option"
  received_timestamp :: "pystr option"
  paywall_detected :: "bool option"
  article_type :: "pystr option"

text \<open>The bucket that the section strategy fills between two headings\<close>

record bucket =
  b_title :: pystr
  b_url :: pystr
  raw_text :: pystr
  b_author :: "pystr option"
  b_publish_date :: "pystr option"

text \<open>\<open>x or ''\<close> for an optional string\<close>

fun or_empty :: "pystr option \<Rightarrow> pystr" where
  "or_empty None = []"
| "or_empty (Some s) = s"

subsection \<open>Blurb and finaliser\<close>

definition trim_blurb :: "pystr \<Rightarrow> pystr" where
  "trim_blurb b =
     (if length b > MAX_BLURB_CHARS
      then rsplit1_head SP (take MAX_BLURB_CHARS b) @ [SP, ELLIPSIS]
      else b)"

definition extract_blurb :: "pylib \<Rightarrow> pystr \<Rightarrow> pystr \<Rightarrow> pystr" where
  "extract_blurb L content_arg title_arg =
     (let blurb = strip content_arg;
          blurb = (if startswith (str_lower L blurb) (str_lower L title_arg)
                   then strip (drop (length title_arg) blurb) else blurb);
          blurb = strip (collapse_ws blurb)
      in trim_blurb blurb)"

definition finalise :: "pylib \<Rightarrow> bucket \<Rightarrow> article" where
  "finalise L bucket =
     (let content = strip (collapse_ws (raw_text bucket));
          title = b_title bucket;
          blurb = content;
          blurb = (if startswith (str_lower L blurb) (str_lower L title)
                   then strip (drop (length title) blurb) else blurb);
          blurb = strip (collapse_ws blurb);
          blurb = trim_blurb blurb
      in \<lparr> title = title,
           url = b_url bucket,
           content = content,
           blurb = blurb,
           content_snippet = take 500 content,
           word_count = length (split_ws content),
           author = b_author bucket,
           publish_date = b_publish_date bucket,
           newsletter_name = None,
           newsletter_email = None,
           received_timestamp = None,
           paywall_detected = None,
           article_type = None \<rparr>)"

subsection \<open>Strategy 1: sections\<close>

definition close_bucket :: "pylib \<Rightarrow> bucket option \<Rightarrow> article list \<Rightarrow> article list" where
  "close_bucket L current articles =
     (case current of None \<Rightarrow> articles | Some b \<Rightarrow> articles @ [finalise L b])"

fun sections_loop ::
  "pylib \<Rightarrow> node list \<Rightarrow> bucket option \<Rightarrow> article list \<Rightarrow> article list" where
  "sections_loop L [] current articles = close_bucket L current articles"
| "sections_loop L (Text k s # es) current articles =
     (case current of
        None \<Rightarrow> sections_loop L es None articles
      | Some b \<Rightarrow>
          sections_loop L es (Some (b\<lparr>raw_text := raw_text b @ strip s @ [SP]\<rparr>)) articles)"
| "sections_loop L (Tag n at cs # es) current articles =
     (let element = Tag n at cs
      in if n = py ''h2'' \<or> n = py ''h3''
         then let articles = close_bucket L current articles;
                  title = get_text [] element;
                  link = best_link_in L element
              in sections_loop L es
                   (Some \<lparr> b_title = title, b_url = or_empty link, raw_text = [],
                           b_author = None, b_publish_date = None \<rparr>)
                   articles
         else (case current of
                 None \<Rightarrow> sections_loop L es None articles
               | Some b \<Rightarrow>
                   let b = b\<lparr>raw_text := raw_text b @ get_text [SP] element @ [SP]\<rparr>;
                       b = (if b_url b = []
                            then b\<lparr>b_url := or_empty (best_link_in L element)\<rparr>
                            else b)
                   in sections_loop L es (Some b) articles))"

definition extract_by_sections :: "pylib \<Rightarrow> node \<Rightarrow> article list" where
  "extract_by_sections L soup =
     (let body = find_body soup;
          articles = sections_loop L (children body) None []
      in filter (\<lambda>a. word_count a > 0) articles)"

subsection \<open>Strategy 2: links\<close>

text \<open>
  The walk to a block-level parent: at most five steps up, stopping at the first parent
  whose name is a block tag, or where there is no parent.
\<close>

fun walk_up :: "nat \<Rightarrow> node \<Rightarrow> node list \<Rightarrow> node" where
  "walk_up 0 content_block parents = content_block"
| "walk_up (Suc k) content_block [] = content_block"
| "walk_up (Suc k) content_block (parent # parents) =
     (if name_of parent \<in> Some ` set BLOCK_TAGS then parent
      else walk_up k parent parents)"

fun links_loop ::
  "pylib \<Rightarrow> (node \<times> node list) list \<Rightarrow> pystr set \<Rightarrow> article list
     \<Rightarrow> article list" where
  "links_loop L [] seen_urls articles = articles"
| "links_loop L ((a_tag, parents) # rest) seen_urls articles =
     (let url = strip (or_empty (href a_tag))
      in if \<not> startswith url HTTP then links_loop L rest seen_urls articles
         else if is_noise_url L url (get_text [] a_tag)
              then links_loop L rest seen_urls articles
         else if url \<in> seen_urls then links_loop L rest seen_urls articles
         else let seen_urls = insert url seen_urls;
                  title = get_text [] a_tag
              in if title = [] \<or> length title < 10
                 then links_loop L rest seen_urls articles
                 else let content_block = walk_up 5 a_tag parents;
                          content = get_text [SP] content_block
                      in links_loop L rest seen_urls
                           (articles @
                            [\<lparr> title = title,
                               url = url,
                               content = content,
                               blurb = extract_blurb L content title,
                               content_snippet = take 500 content,
                               word_count = length (split_ws content),
                               author = None,
                               publish_date = None,
                               newsletter_name = None,
                               newsletter_email = None,
                               received_timestamp = None,
                               paywall_detected = None,
                               article_type = None \<rparr>]))"

definition extract_by_links :: "pylib \<Rightarrow> node \<Rightarrow> article list" where
  "extract_by_links L soup = links_loop L (find_all_a soup) {} []"

subsection \<open>Strategy 3: fallback\<close>

fun title_loop :: "pystr list \<Rightarrow> pystr \<Rightarrow> pystr" where
  "title_loop [] default_title = default_title"
| "title_loop (line # lines) default_title =
     (let line = strip line
      in if 10 < length line \<and> length line < 120 then line
         else title_loop lines default_title)"

definition extract_fallback :: "node \<Rightarrow> article list" where
  "extract_fallback soup =
     (let text = get_text [SP] soup;
          text = strip (collapse_ws text);
          title = title_loop (split_on NL text) NEWSLETTER
      in [\<lparr> title = title,
            url = [],
            content = text,
            blurb = [],
            content_snippet = take 500 text,
            word_count = length (split_ws text),
            author = None,
            publish_date = None,
            newsletter_name = None,
            newsletter_email = None,
            received_timestamp = None,
            paywall_detected = None,
            article_type = None \<rparr>])"

subsection \<open>Classification\<close>

definition is_essay_newsletter :: "pylib \<Rightarrow> pystr \<Rightarrow> bool" where
  "is_essay_newsletter L nl_name =
     (let name_lower = str_lower L nl_name
      in list_ex (\<lambda>kw. contains name_lower kw) ESSAY_NEWSLETTERS)"

text \<open>
  \<open>newsletter_email.split('@')[1]\<close> is read only when the address contains \<open>@\<close>, where the
  split has at least two parts (\<open>split_on_length\<close> below), so the index never fails.
\<close>

definition classify :: "pylib \<Rightarrow> article \<Rightarrow> pystr \<Rightarrow> bool \<Rightarrow> pystr" where
  "classify L a nl_email force_essay =
     (if force_essay then ESSAY
      else let url = strip (url a)
           in if url = [] then ESSAY
              else if contains nl_email [AT]
                      \<and> contains (str_lower L url) (str_lower L (split_on AT nl_email ! 1))
                   then ESSAY
                   else LINK)"

definition detect_paywall :: "pylib \<Rightarrow> pystr \<Rightarrow> bool" where
  "detect_paywall L text =
     (let lower_text = str_lower L text
      in list_ex (\<lambda>phrase. contains lower_text phrase) PAYWALL_PHRASES)"

subsection \<open>The facade\<close>

definition stamp :: "pylib \<Rightarrow> pystr \<Rightarrow> pystr \<Rightarrow> pystr \<Rightarrow> bool \<Rightarrow> article \<Rightarrow> article" where
  "stamp L nl_name nl_email received force_essay a =
     (let a = a\<lparr>newsletter_name := Some nl_name\<rparr>;
          a = a\<lparr>newsletter_email := Some nl_email\<rparr>;
          a = a\<lparr>received_timestamp := Some received\<rparr>;
          a = a\<lparr>paywall_detected := Some (detect_paywall L (content a))\<rparr>;
          a = a\<lparr>article_type := Some (classify L a nl_email force_essay)\<rparr>
      in a)"

fun stamp_loop ::
  "pylib \<Rightarrow> pystr \<Rightarrow> pystr \<Rightarrow> pystr \<Rightarrow> bool \<Rightarrow> article list \<Rightarrow> article list \<Rightarrow> article list" where
  "stamp_loop L nl_name nl_email received force_essay [] result = result"
| "stamp_loop L nl_name nl_email received force_essay (a # as) result =
     (let a = stamp L nl_name nl_email received force_essay a
      in if word_count a \<ge> MIN_WORD_COUNT
         then stamp_loop L nl_name nl_email received force_essay as (result @ [a])
         else stamp_loop L nl_name nl_email received force_essay as result)"

definition extract_from_email ::
  "(pystr \<Rightarrow> node) \<Rightarrow> pylib \<Rightarrow> pystr \<Rightarrow> pystr \<Rightarrow> pystr \<Rightarrow> pystr
     \<Rightarrow> article list" where
  "extract_from_email BeautifulSoup L html_content nl_name nl_email received =
     (if html_content = [] then []
      else let soup = BeautifulSoup html_content;
               articles = extract_by_sections L soup;
               articles = (if articles = [] then extract_by_links L soup else articles);
               articles = (if articles = [] then extract_fallback soup else articles);
               force_essay = is_essay_newsletter L nl_name
           in stamp_loop L nl_name nl_email received force_essay articles [])"


section \<open>Concrete library instances and documents\<close>

text \<open>
  An instance of \<open>str.lower\<close> for ASCII text, where the case tables of Unicode map the
  letters \<open>A\<close> to \<open>Z\<close> and nothing else.
\<close>

definition lower_cp :: "nat \<Rightarrow> nat" where
  "lower_cp c = (if 65 \<le> c \<and> c \<le> 90 then c + 32 else c)"

definition ascii_lower :: "pystr \<Rightarrow> pystr" where
  "ascii_lower s = map lower_cp s"

text \<open>
  An instance of \<open>urlparse(u).path\<close> for URLs of the shape
  \<open>scheme://netloc/path?query#fragment\<close>, with the \<open>ValueError\<close> of an unbalanced
  bracket in the network location.  It serves to evaluate the definitions at concrete
  URLs; the theorems hold for every such function.
\<close>

definition simple_urlpath :: "pystr \<Rightarrow> pystr option" where
  "simple_urlpath u =
     (let stop = (\<lambda>c. c = SLASH \<or> c = 63 \<or> c = 35);
          rest = (case dropWhile (\<lambda>c. c \<noteq> 58) u of [] \<Rightarrow> u | _ # r \<Rightarrow> r);
          netloc = (if take 2 rest = [SLASH, SLASH]
                    then takeWhile (\<lambda>c. \<not> stop c) (drop 2 rest) else []);
          rest = (if take 2 rest = [SLASH, SLASH]
                  then dropWhile (\<lambda>c. \<not> stop c) (drop 2 rest) else rest)
      in if (91 \<in> set netloc) \<noteq> (93 \<in> set netloc) then None
         else Some (takeWhile (\<lambda>c. c \<noteq> 63 \<and> c \<noteq> 35) rest))"

text \<open>The two instances together, for ASCII text and URLs of that shape\<close>

definition ascii_lib :: pylib where
  "ascii_lib = \<lparr> str_lower = ascii_lower, urlparse_path = simple_urlpath \<rparr>"

text \<open>One hundred one-letter words\<close>

definition words100 :: pystr where
  "words100 = py (''w w w w w w w w w w w w w w w w w w w w w w w w w w w w w w '' @
       ''w w w w w w w w w w w w w w w w w w w w w w w w w w w w w w '' @
       ''w w w w w w w w w w w w w w w w w w w w w w w w w w w w w w '' @
       ''w w w w w w w w w w'')"

text \<open>
  \<open><body><div><h2>Heading</h2><p><a href="https://example.com/news/story">A long anchor
  text</a>w w ...</p></div></body>\<close>: the heading and the anchor are both below a
  \<open>div\<close>, so no heading is a child of the body.
\<close>

definition nested_doc :: node where
  "nested_doc =
     Tag (py ''[document]'') []
       [Tag (py ''body'') []
          [Tag (py ''div'') []
             [Tag (py ''h2'') [] [Text NavigableString (py ''Heading'')],
              Tag (py ''p'') []
                [Tag (py ''a'') [(py ''href'', py ''https://example.com/news/story'')]
                   [Text NavigableString (py ''A long anchor text'')],
                 Text NavigableString words100]]]]"

text \<open>
  \<open><body><h2>Heading</h2><p><a href="https://example.com/news/story">A long anchor
  text</a>w w ...</p></body>\<close>: the same heading and anchor as children of the body.
\<close>

definition section_doc :: node where
  "section_doc =
     Tag (py ''[document]'') []
       [Tag (py ''body'') []
          [Tag (py ''h2'') [] [Text NavigableString (py ''Heading'')],
           Tag (py ''p'') []
             [Tag (py ''a'') [(py ''href'', py ''https://example.com/news/story'')]
                [Text NavigableString (py ''A long anchor text'')],
              Text NavigableString words100]]]"

text \<open>
  A heading of level 2 or 3; a string with a character that is not whitespace; a child of
  the body that brings at least one word into a section: a tag with such text, or ordinary
  text with such a character.
\<close>

definition is_heading :: "node \<Rightarrow> bool" where
  "is_heading e \<longleftrightarrow> name_of e = Some (py ''h2'') \<or> name_of e = Some (py ''h3'')"

definition has_word :: "pystr \<Rightarrow> bool" where
  "has_word s \<longleftrightarrow> list_ex (\<lambda>c. \<not> isspace c) s"

fun node_has_word :: "node \<Rightarrow> bool" where
  "node_has_word (Text k s) = (k = NavigableString \<and> has_word s)"
| "node_has_word (Tag n at cs) = has_word (get_text [SP] (Tag n at cs))"

text \<open>A document contains a heading, or an anchor with an \<open>http\<close> target, at any depth.\<close>

definition has_heading :: "node \<Rightarrow> bool" where
  "has_heading soup \<longleftrightarrow>
     list_ex (\<lambda>x. name_of x = Some (py ''h2'') \<or> name_of x = Some (py ''h3''))
       (map fst (descendants [] soup))"

definition has_anchor :: "node \<Rightarrow> bool" where
  "has_anchor soup \<longleftrightarrow>
     list_ex (\<lambda>x. startswith (strip (or_empty (href x))) HTTP) (map fst (find_all_a soup))"





text \<open>
  The anchors of a document that carry the url \<open>u\<close> and pass the noise filter, in
  document order.
\<close>

definition candidates :: "pylib \<Rightarrow> pystr \<Rightarrow> node \<Rightarrow> node list" where
  "candidates L u soup =
     map fst (filter (\<lambda>(x, anc). strip (or_empty (href x)) = u
                              \<and> \<not> is_noise_url L u (get_text [] x))
                (find_all_a soup))"

text \<open>
  \<open><body><p><a href="https://example.com/news/story">Read</a></p><p><a
  href="https://example.com/news/story">A much longer anchor title</a></p></body>\<close>
\<close>

definition dup_doc :: node where
  "dup_doc =
     Tag (py ''[document]'') []
       [Tag (py ''body'') []
          [Tag (py ''p'') []
             [Tag (py ''a'') [(py ''href'', py ''https://example.com/news/story'')]
                [Text NavigableString (py ''Read'')]],
           Tag (py ''p'') []
             [Tag (py ''a'') [(py ''href'', py ''https://example.com/news/story'')]
                [Text NavigableString (py ''A much longer anchor title'')]]]]"

text \<open>What the url of an extracted article may be\<close>

definition http_or_empty :: "pystr \<Rightarrow> bool" where
  "http_or_empty u \<longleftrightarrow> u = [] \<or> startswith u HTTP"

text \<open>
  The fallback title as the specification words it: the first line of the document's
  visible text whose length is strictly between 10 and 120, or the placeholder.
\<close>

definition spec_fallback_title :: "node \<Rightarrow> pystr" where
  "spec_fallback_title soup = title_loop (split_on NL (get_text [SP] soup)) NEWSLETTER"

text \<open>
  \<open><p>Hello world today\nsecond line here ok</p>\<close>: a paragraph whose text has two lines.
\<close>

definition two_line_doc :: node where
  "two_line_doc =
     Tag (py ''[document]'') []
       [Tag (py ''p'') [] [Text NavigableString (py ''Hello world today'' @ [NL] @ py ''second line here ok'')]]"

text \<open>A bucket whose text is 601 letters \<open>a\<close> without a space\<close>

definition long_word_bucket :: bucket where
  "long_word_bucket =
     \<lparr> b_title = [], b_url = [], raw_text = replicate 601 97,
       b_author = None, b_publish_date = None \<rparr>"

text \<open>
  The noise test as the specification words it: the social and video platform domains,
  the noise segments and the noise phrases.
\<close>

definition PLATFORM_DOMAINS :: "pystr list" where
  "PLATFORM_DOMAINS = map py
     [''twitter.com'', ''facebook.com'', ''instagram.com'', ''linkedin.com'', ''youtube.com'']"

definition is_noise_spec :: "pylib \<Rightarrow> pystr \<Rightarrow> pystr \<Rightarrow> bool" where
  "is_noise_spec L u anchor_text \<longleftrightarrow>
     list_ex (\<lambda>d. contains (str_lower L u) d) PLATFORM_DOMAINS
     \<or> list_ex (\<lambda>seg. seg \<in> NOISE_PATH_SEGMENTS) (path_parts_of L (str_lower L u))
     \<or> list_ex (\<lambda>phrase. contains (str_lower L anchor_text) phrase) NOISE_ANCHOR_PHRASES"

text \<open>The two fields of an article that the evaluations below read\<close>

definition url_words :: "article \<Rightarrow> pystr \<times> nat" where
  "url_words a = (url a, word_count a)"

section \<open>Facts about the facade\<close>

lemma classify_url_only:
  "url a = url b \<Longrightarrow> classify L a e f = classify L b e f"
  by (simp add: classify_def)

lemma stamp_url [simp]: "url (stamp L n e t f a) = url a"
  by (simp add: stamp_def Let_def)

lemma stamp_word_count [simp]: "word_count (stamp L n e t f a) = word_count a"
  by (simp add: stamp_def Let_def)

lemma stamp_article_type [simp]: "article_type (stamp L n e t f a) = Some (classify L a e f)"
  by (simp add: stamp_def Let_def classify_def)

lemma stamp_received [simp]: "received_timestamp (stamp L n e t f a) = Some t"
  by (simp add: stamp_def Let_def)

lemma stamp_loop_eq:
  "stamp_loop L n e t f as r =
     r @ filter (\<lambda>a. MIN_WORD_COUNT \<le> word_count a) (map (stamp L n e t f) as)"
  by (induction as arbitrary: r) (simp_all add: Let_def)

lemma essay_neq_link: "ESSAY \<noteq> LINK"
  by (simp add: ESSAY_def LINK_def py_def)

lemma classify_cases: "classify L a e f = ESSAY \<or> classify L a e f = LINK"
  by (simp add: classify_def Let_def)

lemma facade_members:
  assumes "a \<in> set (extract_from_email bs L html n e t)"
  shows "\<exists>r. a = stamp L n e t (is_essay_newsletter L n) r \<and> MIN_WORD_COUNT \<le> word_count r"
  using assms
  by (auto simp: extract_from_email_def Let_def stamp_loop_eq split: if_splits)

text \<open>
  Claim C2.  Every article that \<open>extract_from_email\<close> returns has at least
  \<open>MIN_WORD_COUNT\<close> words, whichever strategy produced it, and its \<open>article_type\<close> is
  set to \<open>'essay'\<close> or to \<open>'link'\<close>, never to both and never left absent.
\<close>

theorem output_min_words_and_type:
  assumes "a \<in> set (extract_from_email bs L html n e t)"
  shows "MIN_WORD_COUNT \<le> word_count a
       \<and> (article_type a = Some ESSAY \<or> article_type a = Some LINK)
       \<and> \<not> (article_type a = Some ESSAY \<and> article_type a = Some LINK)"
proof -
  from facade_members [OF assms] obtain r where
    a: "a = stamp L n e t (is_essay_newsletter L n) r" and w: "MIN_WORD_COUNT \<le> word_count r"
    by blast
  have "article_type a = Some (classify L r e (is_essay_newsletter L n))"
    by (simp add: a)
  with classify_cases [of L r e "is_essay_newsletter L n"] essay_neq_link w a
  show ?thesis by auto
qed

text \<open>
  Claim C7.  With an empty HTML string \<open>extract_from_email\<close> returns the empty list,
  whatever the other three arguments are.  The model is a total function: the only
  operations of the facade that can raise are the ones under \<open>urlparse\<close>, which the code
  catches, and the index into the split address, which is guarded.
\<close>

theorem empty_html_gives_empty_list:
  "extract_from_email bs L [] n e t = []"
  by (simp add: extract_from_email_def)

lemma finalise_url [simp]: "url (finalise L b) = b_url b"
  by (simp add: finalise_def Let_def)

lemma finalise_word_count [simp]:
  "word_count (finalise L b) = length (split_ws (strip (collapse_ws (raw_text b))))"
  by (simp add: finalise_def Let_def)

section \<open>Evaluation at concrete documents\<close>

lemmas str_ev = py_def isspace_def SP_def NL_def AT_def SLASH_def strip_def strip_char_def
  ascii_lib_def ascii_lower_def lower_cp_def startswith_def HTTP_def

lemmas dom_ev = is_anchor_def find_all_a_def find_body_def get_text_def BLOCK_TAGS_def
  interesting_string_types_def

lemmas noise_ev = path_parts_of_def is_noise_url_def score_link_def NOISE_DOMAINS_def
  NOISE_ANCHOR_PHRASES_def NOISE_PATH_SEGMENTS_def article_signals_def simple_urlpath_def

lemma walk_up_5: "walk_up 5 c ps = walk_up (Suc (Suc (Suc (Suc (Suc 0))))) c ps"
  by (simp add: numeral_eq_Suc)

lemma nested_doc_sections: "extract_by_sections ascii_lib nested_doc = []"
  by (simp add: extract_by_sections_def nested_doc_def dom_ev str_ev close_bucket_def)

lemma nested_doc_links: "map url_words (extract_by_links ascii_lib nested_doc)
            = [(py ''https://example.com/news/story'', 104)]"
  by (simp add: extract_by_links_def nested_doc_def words100_def dom_ev str_ev noise_ev walk_up_5 url_words_def Let_def)

lemma section_doc_sections: "map url_words (extract_by_sections ascii_lib section_doc)
            = [(py ''https://example.com/news/story'', 104)]"
  by (simp add: extract_by_sections_def section_doc_def words100_def dom_ev str_ev noise_ev
        best_link_in_def close_bucket_def url_words_def Let_def)

lemma url_words_stamped:
  "map url_words (filter (\<lambda>a. MIN_WORD_COUNT \<le> word_count a) (map (stamp L n e t f) xs))
     = filter (\<lambda>p. MIN_WORD_COUNT \<le> snd p) (map url_words xs)"
  by (induction xs) (simp_all add: url_words_def)

lemma facade_section_doc:
  "map url_words (extract_from_email (\<lambda>_. section_doc) ascii_lib (py ''<html>'') n e t)
     = [(py ''https://example.com/news/story'', 104)]"
proof -
  have s: "map url_words (extract_by_sections ascii_lib section_doc)
            = [(py ''https://example.com/news/story'', 104)]"
    by (rule section_doc_sections)
  then have ne: "extract_by_sections ascii_lib section_doc \<noteq> []" by auto
  have h: "py ''<html>'' \<noteq> []" by (simp add: py_def)
  show ?thesis
    by (simp add: extract_from_email_def Let_def stamp_loop_eq url_words_stamped ne h s)
       (simp add: MIN_WORD_COUNT_def)
qed

lemma facade_nested_doc:
  "map url_words (extract_from_email (\<lambda>_. nested_doc) ascii_lib (py ''<html>'') n e t)
     = [(py ''https://example.com/news/story'', 104)]"
proof -
  have s: "map url_words (extract_by_links ascii_lib nested_doc)
            = [(py ''https://example.com/news/story'', 104)]"
    by (rule nested_doc_links)
  then have ne: "extract_by_links ascii_lib nested_doc \<noteq> []" by auto
  have h: "py ''<html>'' \<noteq> []" by (simp add: py_def)
  show ?thesis
    by (simp add: extract_from_email_def Let_def stamp_loop_eq url_words_stamped ne h s
          nested_doc_sections)
       (simp add: MIN_WORD_COUNT_def)
qed

theorem output_min_words_and_type_witness:
  "hd (extract_from_email (\<lambda>_. section_doc) ascii_lib (py ''<html>'') [] [] [])
     \<in> set (extract_from_email (\<lambda>_. section_doc) ascii_lib (py ''<html>'') [] [] [])
   \<and> MIN_WORD_COUNT
       \<le> word_count (hd (extract_from_email (\<lambda>_. section_doc) ascii_lib (py ''<html>'') [] [] []))
   \<and> article_type (hd (extract_from_email (\<lambda>_. section_doc) ascii_lib (py ''<html>'') [] [] []))
       = Some LINK"
proof -
  let ?r = "extract_from_email (\<lambda>_. section_doc) ascii_lib (py ''<html>'') [] [] []"
  from facade_section_doc [of "[]" "[]" "[]"] obtain a where r: "?r = [a]"
    and u: "url a = py ''https://example.com/news/story''"
    by (auto simp: url_words_def)
  have m: "hd ?r \<in> set ?r" by (simp add: r)
  from facade_members [OF m] obtain x where
    x: "hd ?r = stamp ascii_lib [] [] [] (is_essay_newsletter ascii_lib []) x" by blast
  have ne: "\<not> is_essay_newsletter ascii_lib []"
    by (simp add: is_essay_newsletter_def ESSAY_NEWSLETTERS_def str_ev)
  have "url x = py ''https://example.com/news/story''"
    using x u r by (metis list.sel(1) stamp_url)
  then have "classify ascii_lib x [] False = LINK"
    by (simp add: classify_def Let_def str_ev)
  then have "article_type (hd ?r) = Some LINK"
    using x ne by simp
  with output_min_words_and_type [OF m] m show ?thesis by simp
qed

theorem empty_html_gives_empty_list_witness:
  "extract_from_email (\<lambda>_. section_doc) ascii_lib [] (py ''Stratechery'')
     (py ''ben@stratechery.com'') (py ''2026-01-05T08:00:00Z'') = []"
  using empty_html_gives_empty_list [of "\<lambda>_. section_doc" ascii_lib "py ''Stratechery''"
      "py ''ben@stratechery.com''" "py ''2026-01-05T08:00:00Z''"]
  by simp

section \<open>Substrings\<close>

lemma startswith_iff: "startswith s p \<longleftrightarrow> (\<exists>b. s = p @ b)"
proof
  assume "startswith s p"
  then have "s = p @ drop (length p) s"
    by (metis append_take_drop_id startswith_def)
  then show "\<exists>b. s = p @ b" ..
next
  assume "\<exists>b. s = p @ b"
  then show "startswith s p" by (auto simp: startswith_def)
qed

lemma contains_iff: "contains s p \<longleftrightarrow> (\<exists>a b. s = a @ p @ b)"
proof (induction s)
  case Nil
  then show ?case by auto
next
  case (Cons c cs)
  show ?case
  proof
    assume "contains (c # cs) p"
    then consider "startswith (c # cs) p" | "contains cs p" by auto
    then show "\<exists>a b. c # cs = a @ p @ b"
    proof cases
      case 1
      then obtain b where "c # cs = p @ b" by (auto simp: startswith_iff)
      then have "c # cs = [] @ p @ b" by simp
      then show ?thesis by blast
    next
      case 2
      with Cons.IH obtain a b where "cs = a @ p @ b" by blast
      then have "c # cs = (c # a) @ p @ b" by simp
      then show ?thesis by blast
    qed
  next
    assume "\<exists>a b. c # cs = a @ p @ b"
    then obtain a b where ab: "c # cs = a @ p @ b" by blast
    show "contains (c # cs) p"
    proof (cases a)
      case Nil
      with ab have "startswith (c # cs) p" by (auto simp: startswith_iff)
      then show ?thesis by simp
    next
      case (Cons x a')
      with ab have "cs = a' @ p @ b" by simp
      with Cons.IH have "contains cs p" by blast
      then show ?thesis by simp
    qed
  qed
qed

section \<open>Noise filter and score\<close>

text \<open>
  Claim C6, as amended.  A pair of url and anchor text is noise exactly when the
  lower-cased url contains one of the strings of the domain tuple (the five platform
  domains, \<open>mailto:\<close> and \<open>javascript:\<close>), or a segment of its path is in the noise-segment
  set, or the lower-cased anchor text contains a noise phrase.  A noise pair scores 0.  Any
  other pair scores 1, plus 3 for four or more words of anchor text (1 for two or three),
  plus 2 for a path of three or more segments (1 for two), plus 2 when the lower-cased url
  contains an article-signal keyword; so its score is positive.  The url and the anchor
  text are lower-cased by \<open>str.lower\<close>.
\<close>

theorem noise_and_score:
  "(is_noise_url L u t \<longleftrightarrow>
       (\<exists>d \<in> set NOISE_DOMAINS. contains (str_lower L u) d)
     \<or> (\<exists>seg \<in> set (path_parts_of L (str_lower L u)). seg \<in> NOISE_PATH_SEGMENTS)
     \<or> (\<exists>ph \<in> set NOISE_ANCHOR_PHRASES. contains (str_lower L t) ph))
   \<and> (is_noise_url L u t \<longrightarrow> score_link L u t = 0)
   \<and> (\<not> is_noise_url L u t \<longrightarrow>
        score_link L u t =
          1 + (if 4 \<le> length (split_ws t) then 3 else if 2 \<le> length (split_ws t) then 1 else 0)
            + (if 3 \<le> length (filter (\<lambda>p. p \<noteq> []) (path_parts_of L (str_lower L u))) then 2
               else if 2 \<le> length (filter (\<lambda>p. p \<noteq> []) (path_parts_of L (str_lower L u))) then 1
               else 0)
            + (if \<exists>sig \<in> set article_signals. contains (str_lower L u) sig then 2 else 0)
        \<and> 0 < score_link L u t)"
  by (simp add: is_noise_url_def score_link_def Let_def list_ex_iff)

theorem noise_and_score_witness:
  "\<not> is_noise_url ascii_lib (py ''https://blog.example.com/2026/01/deep-dive'')
        (py ''A Deep Dive into Markets'')
   \<and> score_link ascii_lib (py ''https://blog.example.com/2026/01/deep-dive'')
        (py ''A Deep Dive into Markets'') = 8
   \<and> is_noise_url ascii_lib (py ''https://example.com/unsubscribe'') []
   \<and> score_link ascii_lib (py ''https://example.com/unsubscribe'') [] = 0"
proof -
  let ?u = "py ''https://blog.example.com/2026/01/deep-dive''"
  let ?t = "py ''A Deep Dive into Markets''"
  let ?v = "py ''https://example.com/unsubscribe''"
  have nn: "\<not> is_noise_url ascii_lib ?u ?t"
    by (simp add: noise_ev str_ev)
  have n: "is_noise_url ascii_lib ?v []"
    by (simp add: noise_ev str_ev)
  have w: "length (split_ws ?t) = 5"
    by (simp add: str_ev)
  have d: "path_parts_of ascii_lib (str_lower ascii_lib ?u) = [py ''2026'', py ''01'', py ''deep-dive'']"
    by (simp add: noise_ev str_ev)
  have g: "contains (str_lower ascii_lib ?u) (py ''blog'')"
    by (simp add: str_ev)
  then have g': "\<exists>sig \<in> set article_signals. contains (str_lower ascii_lib ?u) sig"
    by (auto simp: article_signals_def)
  from noise_and_score [of ascii_lib ?u ?t] nn
  have "score_link ascii_lib ?u ?t =
          1 + (if 4 \<le> length (split_ws ?t) then 3 else if 2 \<le> length (split_ws ?t) then 1 else 0)
            + (if 3 \<le> length (filter (\<lambda>p. p \<noteq> []) (path_parts_of ascii_lib (str_lower ascii_lib ?u))) then 2
               else if 2 \<le> length (filter (\<lambda>p. p \<noteq> []) (path_parts_of ascii_lib (str_lower ascii_lib ?u))) then 1
               else 0)
            + (if \<exists>sig \<in> set article_signals. contains (str_lower ascii_lib ?u) sig then 2 else 0)"
    by blast
  then have s: "score_link ascii_lib ?u ?t = 8"
    unfolding w d using g' by (simp add: py_def)
  from noise_and_score [of ascii_lib ?v "[]"] n
  have "score_link ascii_lib ?v [] = 0" by blast
  with nn n s show ?thesis by blast
qed

text \<open>
  The claim as stated fails for a url that contains \<open>mailto:\<close>: it is noise and scores 0,
  though it names no platform domain, has no noise segment and its anchor text has no
  noise phrase.
\<close>

theorem noise_counterexample:
  "is_noise_url ascii_lib (py ''https://example.com/share?to=mailto:friend'')
      (py ''Share this story'')
   \<and> \<not> is_noise_spec ascii_lib (py ''https://example.com/share?to=mailto:friend'')
        (py ''Share this story'')
   \<and> score_link ascii_lib (py ''https://example.com/share?to=mailto:friend'')
        (py ''Share this story'') = 0"
  by (simp add: is_noise_spec_def PLATFORM_DOMAINS_def noise_ev str_ev)

section \<open>The classifier\<close>

lemma split_on_not_empty: "split_on d s \<noteq> []"
  by (induction s) (auto split: list.splits)

lemma split_on_no_separator: "d \<notin> set a \<Longrightarrow> split_on d a = [a]"
  by (induction a) auto


lemma split_on_length: "d \<in> set s \<Longrightarrow> 2 \<le> length (split_on d s)"
proof (induction s)
  case Nil
  then show ?case by simp
next
  case (Cons c cs)
  show ?case
  proof (cases "c = d")
    case True
    then show ?thesis
      using split_on_not_empty [of d cs] by (cases "split_on d cs") auto
  next
    case False
    with Cons show ?thesis by (auto split: list.splits)
  qed
qed








section \<open>Urls of the extracted articles\<close>

lemma best_link_loop_http:
  "(\<And>v. best = Some v \<Longrightarrow> startswith v HTTP) \<Longrightarrow>
   best_link_loop L as best sc = Some u \<Longrightarrow> startswith u HTTP"
proof (induction as arbitrary: best sc)
  case Nil
  then show ?case by simp
next
  case (Cons a as)
  show ?case
  proof (cases "startswith (strip (case href a of None \<Rightarrow> [] | Some h \<Rightarrow> h)) HTTP")
    case False
    with Cons.prems(2) have "best_link_loop L as best sc = Some u" by simp
    with Cons.IH Cons.prems(1) show ?thesis by blast
  next
    case True
    let ?url = "strip (case href a of None \<Rightarrow> [] | Some h \<Rightarrow> h)"
    let ?score = "score_link L ?url (get_text [] a)"
    show ?thesis
    proof (cases "?score > sc")
      case gt: True
      with True Cons.prems(2) have "best_link_loop L as (Some ?url) ?score = Some u"
        by (simp add: Let_def)
      with Cons.IH [of "Some ?url" ?score] True show ?thesis by simp
    next
      case le: False
      with True Cons.prems(2) have "best_link_loop L as best sc = Some u"
        by (simp add: Let_def)
      with Cons.IH Cons.prems(1) show ?thesis by blast
    qed
  qed
qed

lemma best_link_in_http:
  "or_empty (best_link_in L e) = [] \<or> startswith (or_empty (best_link_in L e)) HTTP"
proof (cases "best_link_in L e")
  case None
  then show ?thesis by simp
next
  case (Some u)
  then have "startswith u HTTP"
    by (cases e) (auto simp: best_link_in_def dest: best_link_loop_http [rotated])
  with Some show ?thesis by simp
qed

lemma sections_loop_http:
  "(\<And>a. a \<in> set articles \<Longrightarrow> http_or_empty (url a)) \<Longrightarrow>
   (\<And>b. current = Some b \<Longrightarrow> http_or_empty (b_url b)) \<Longrightarrow>
   a \<in> set (sections_loop L es current articles) \<Longrightarrow> http_or_empty (url a)"
proof (induction L es current articles rule: sections_loop.induct)
  case (1 L current articles)
  then show ?case
    by (cases current) (auto simp: close_bucket_def)
next
  case (2 L k s es current articles)
  then show ?case
    by (cases current) auto
next
  case (3 L n at cs es current articles)
  let ?el = "Tag n at cs"
  show ?case
  proof (cases "n = py ''h2'' \<or> n = py ''h3''")
    case True
    let ?arts = "close_bucket L current articles"
    let ?b = "\<lparr> b_title = get_text [] ?el, b_url = or_empty (best_link_in L ?el),
               raw_text = [], b_author = None, b_publish_date = None \<rparr>"
    from "3.prems"(3) True have m: "a \<in> set (sections_loop L es (Some ?b) ?arts)"
      by (simp add: Let_def)
    have arts: "\<And>x. x \<in> set ?arts \<Longrightarrow> http_or_empty (url x)"
      using "3.prems"(1,2) by (cases current) (auto simp: close_bucket_def)
    have cur: "\<And>b. Some ?b = Some b \<Longrightarrow> http_or_empty (b_url b)"
      using best_link_in_http [of L ?el] by (auto simp: http_or_empty_def)
    from "3.IH"(1) [OF refl True refl refl refl arts cur m] show ?thesis .
  next
    case False
    show ?thesis
    proof (cases current)
      case None
      with "3.prems"(3) False have m: "a \<in> set (sections_loop L es None articles)"
        by simp
      from "3.IH"(2) [OF refl False None "3.prems"(1) _ m] show ?thesis by simp
    next
      case (Some b)
      let ?b1 = "b\<lparr>raw_text := raw_text b @ get_text [SP] ?el @ [SP]\<rparr>"
      let ?b2 = "if b_url ?b1 = [] then ?b1\<lparr>b_url := or_empty (best_link_in L ?el)\<rparr> else ?b1"
      from "3.prems"(3) False Some have m: "a \<in> set (sections_loop L es (Some ?b2) articles)"
        by (simp add: Let_def)
      have "http_or_empty (b_url b)" using "3.prems"(2) Some by simp
      then have cur: "\<And>c. Some ?b2 = Some c \<Longrightarrow> http_or_empty (b_url c)"
        using best_link_in_http [of L ?el] by (auto simp: http_or_empty_def)
      from "3.IH"(3) [OF refl False Some refl refl "3.prems"(1) cur m] show ?thesis by simp
    qed
  qed
qed


lemma links_loop_step:
  "\<exists>seen' arts'.
      links_loop L ((x, anc) # as) seen arts = links_loop L as seen' arts'
    \<and> seen \<subseteq> seen'
    \<and> (arts' = arts
       \<or> (\<exists>r. arts' = arts @ [r] \<and> url r = strip (or_empty (href x))
              \<and> startswith (url r) HTTP
              \<and> \<not> is_noise_url L (url r) (get_text [] x)
              \<and> url r \<notin> seen \<and> 10 \<le> length (get_text [] x)))
    \<and> (startswith (strip (or_empty (href x))) HTTP
         \<and> \<not> is_noise_url L (strip (or_empty (href x))) (get_text [] x)
       \<longrightarrow> strip (or_empty (href x)) \<in> seen')"
proof -
  let ?u = "strip (or_empty (href x))"
  let ?t = "get_text [] x"
  consider (skip) "\<not> startswith ?u HTTP \<or> is_noise_url L ?u ?t"
    | (dup) "startswith ?u HTTP" "\<not> is_noise_url L ?u ?t" "?u \<in> seen"
    | (short) "startswith ?u HTTP" "\<not> is_noise_url L ?u ?t" "?u \<notin> seen" "length ?t < 10"
    | (new) "startswith ?u HTTP" "\<not> is_noise_url L ?u ?t" "?u \<notin> seen" "10 \<le> length ?t"
    by fastforce
  then show ?thesis
  proof cases
    case skip
    then have "links_loop L ((x, anc) # as) seen arts = links_loop L as seen arts"
      by (auto simp: Let_def)
    with skip show ?thesis by blast
  next
    case dup
    then have "links_loop L ((x, anc) # as) seen arts = links_loop L as seen arts"
      by (simp add: Let_def)
    with dup show ?thesis by blast
  next
    case short
    then have "links_loop L ((x, anc) # as) seen arts = links_loop L as (insert ?u seen) arts"
      by (simp add: Let_def)
    then show ?thesis by blast
  next
    case new
    let ?content = "get_text [SP] (walk_up 5 x anc)"
    let ?r = "\<lparr> title = ?t, url = ?u, content = ?content,
                blurb = extract_blurb L ?content ?t, content_snippet = take 500 ?content,
                word_count = length (split_ws ?content), author = None, publish_date = None,
                newsletter_name = None, newsletter_email = None, received_timestamp = None,
                paywall_detected = None, article_type = None \<rparr>"
    from new have ne: "?t \<noteq> []" by auto
    from new ne have
      "links_loop L ((x, anc) # as) seen arts = links_loop L as (insert ?u seen) (arts @ [?r])"
      by (simp add: Let_def)
    moreover have "url ?r = ?u" by simp
    ultimately show ?thesis using new
      by (intro exI [of _ "insert ?u seen"] exI [of _ "arts @ [?r]"]) auto
  qed
qed

lemma links_loop_http:
  "(\<And>r. r \<in> set arts \<Longrightarrow> startswith (url r) HTTP) \<Longrightarrow>
   a \<in> set (links_loop L as seen arts) \<Longrightarrow> startswith (url a) HTTP"
proof (induction as arbitrary: seen arts)
  case Nil
  then show ?case by simp
next
  case (Cons p as)
  obtain x anc where p: "p = (x, anc)" by (cases p)
  from links_loop_step [of L x anc as seen arts] obtain seen' arts' where
    eq: "links_loop L ((x, anc) # as) seen arts = links_loop L as seen' arts'" and
    arts: "arts' = arts \<or> (\<exists>r. arts' = arts @ [r] \<and> startswith (url r) HTTP)"
    by blast
  from arts Cons.prems(1) have "\<And>r. r \<in> set arts' \<Longrightarrow> startswith (url r) HTTP"
    by auto
  moreover from Cons.prems(2) have "a \<in> set (links_loop L as seen' arts')"
    unfolding p eq .
  ultimately show ?case by (rule Cons.IH)
qed

lemma HTTP_not_empty: "HTTP \<noteq> []"
  by (simp add: HTTP_def py_def)

lemma strategies_http:
  "r \<in> set (extract_by_sections L soup) \<union> set (extract_by_links L soup)
        \<union> set (extract_fallback soup) \<Longrightarrow> http_or_empty (url r)"
proof -
  assume "r \<in> set (extract_by_sections L soup) \<union> set (extract_by_links L soup)
        \<union> set (extract_fallback soup)"
  then consider (s) "r \<in> set (extract_by_sections L soup)"
    | (l) "r \<in> set (extract_by_links L soup)" | (f) "r \<in> set (extract_fallback soup)"
    by blast
  then show ?thesis
  proof cases
    case s
    then have "r \<in> set (sections_loop L (children (find_body soup)) None [])"
      by (simp add: extract_by_sections_def Let_def)
    then show ?thesis by (rule sections_loop_http [rotated 2]) simp_all
  next
    case l
    then have "startswith (url r) HTTP"
      unfolding extract_by_links_def by (rule links_loop_http [rotated]) simp
    then show ?thesis by (simp add: http_or_empty_def)
  next
    case f
    then show ?thesis by (simp add: extract_fallback_def Let_def http_or_empty_def)
  qed
qed

lemma facade_origin:
  assumes "a \<in> set (extract_from_email bs L html n e t)"
  shows "\<exists>r. a = stamp L n e t (is_essay_newsletter L n) r
           \<and> r \<in> set (extract_by_sections L (bs html)) \<union> set (extract_by_links L (bs html))
                 \<union> set (extract_fallback (bs html))"
  using assms
  by (auto simp: extract_from_email_def Let_def stamp_loop_eq split: if_splits)

text \<open>
  Claim C9.  The url of every article that \<open>extract_from_email\<close> returns is the empty
  string or starts with \<open>http\<close>: a \<open>mailto:\<close> or \<open>javascript:\<close> target or a relative path
  is never the url of a returned article.
\<close>

theorem output_url_http_or_empty:
  assumes "a \<in> set (extract_from_email bs L html n e t)"
  shows "url a = [] \<or> startswith (url a) HTTP"
proof -
  from facade_origin [OF assms] obtain r where
    "a = stamp L n e t (is_essay_newsletter L n) r" and
    "r \<in> set (extract_by_sections L (bs html)) \<union> set (extract_by_links L (bs html))
         \<union> set (extract_fallback (bs html))"
    by blast
  with strategies_http [of r L "bs html"] show ?thesis
    by (simp add: http_or_empty_def)
qed

theorem output_url_http_or_empty_witness:
  "hd (extract_from_email (\<lambda>_. section_doc) ascii_lib (py ''<html>'') [] [] [])
     \<in> set (extract_from_email (\<lambda>_. section_doc) ascii_lib (py ''<html>'') [] [] [])
   \<and> startswith
        (url (hd (extract_from_email (\<lambda>_. section_doc) ascii_lib (py ''<html>'') [] [] [])))
        HTTP"
proof -
  let ?r = "extract_from_email (\<lambda>_. section_doc) ascii_lib (py ''<html>'') [] [] []"
  from facade_section_doc [of "[]" "[]" "[]"] obtain a where r: "?r = [a]"
    and u: "url a = py ''https://example.com/news/story''"
    by (auto simp: url_words_def)
  have m: "hd ?r \<in> set ?r" by (simp add: r)
  have "url (hd ?r) = py ''https://example.com/news/story''" by (simp add: r u)
  then have "url (hd ?r) \<noteq> []" by (simp add: py_def)
  with output_url_http_or_empty [OF m] m show ?thesis by simp
qed

section \<open>Duplicate urls in the link strategy\<close>

lemma links_loop_no_url:
  assumes u: "startswith u HTTP"
  shows "(\<And>r. r \<in> set arts \<Longrightarrow> url r \<noteq> u) \<Longrightarrow>
     u \<in> seen \<or> (case map fst (filter (\<lambda>(x, anc). strip (or_empty (href x)) = u
                                   \<and> \<not> is_noise_url L u (get_text [] x)) as) of
                    [] \<Rightarrow> True | c # _ \<Rightarrow> length (get_text [] c) < 10) \<Longrightarrow>
     a \<in> set (links_loop L as seen arts) \<Longrightarrow> url a \<noteq> u"
proof (induction as arbitrary: seen arts)
  case Nil
  then show ?case by simp
next
  case (Cons p as)
  let ?K = "\<lambda>(x, anc). strip (or_empty (href x)) = u \<and> \<not> is_noise_url L u (get_text [] x)"
  obtain x anc where p: "p = (x, anc)" by (cases p)
  let ?v = "strip (or_empty (href x))"
  from links_loop_step [of L x anc as seen arts] obtain seen' arts' where
    eq: "links_loop L ((x, anc) # as) seen arts = links_loop L as seen' arts'" and
    sub: "seen \<subseteq> seen'" and
    arts: "arts' = arts
       \<or> (\<exists>r. arts' = arts @ [r] \<and> url r = ?v \<and> startswith (url r) HTTP
              \<and> \<not> is_noise_url L (url r) (get_text [] x)
              \<and> url r \<notin> seen \<and> 10 \<le> length (get_text [] x))" and
    ins: "startswith ?v HTTP \<and> \<not> is_noise_url L ?v (get_text [] x) \<longrightarrow> ?v \<in> seen'"
    by blast
  have k: "?K p \<Longrightarrow> u \<notin> seen \<Longrightarrow> length (get_text [] x) < 10"
    using Cons.prems(2) by (simp add: p)
  have a1: "\<And>r. r \<in> set arts' \<Longrightarrow> url r \<noteq> u"
  proof -
    fix r assume r: "r \<in> set arts'"
    show "url r \<noteq> u"
    proof (cases "r \<in> set arts")
      case True
      then show ?thesis by (rule Cons.prems(1))
    next
      case False
      with arts r have n: "url r = ?v" "\<not> is_noise_url L (url r) (get_text [] x)"
        "url r \<notin> seen" "10 \<le> length (get_text [] x)"
        by auto
      show ?thesis
      proof
        assume "url r = u"
        with n have "?K p" "u \<notin> seen" by (auto simp: p)
        with k n(4) show False by simp
      qed
    qed
  qed
  have a2: "u \<in> seen' \<or> (case map fst (filter ?K as) of
                    [] \<Rightarrow> True | c # _ \<Rightarrow> length (get_text [] c) < 10)"
  proof (cases "?K p")
    case True
    with u ins have "u \<in> seen'" by (auto simp: p)
    then show ?thesis ..
  next
    case False
    with Cons.prems(2) sub show ?thesis by auto
  qed
  from Cons.prems(3) have "a \<in> set (links_loop L as seen' arts')"
    unfolding p eq .
  with a1 a2 show ?case by (rule Cons.IH)
qed

text \<open>
  Claim C10.  The link strategy records a url as seen before it tests the length of the
  anchor text.  When the first anchor that carries a url and passes the noise filter has
  fewer than ten characters of text, no article of \<open>_extract_by_links\<close> has that url,
  whatever the later anchors with the same url look like.
\<close>

theorem short_first_anchor_hides_url:
  assumes "candidates L u soup = c # cs" and "length (get_text [] c) < 10"
  shows "u \<notin> set (map url (extract_by_links L soup))"
proof (cases "startswith u HTTP")
  case True
  have "\<And>a. a \<in> set (links_loop L (find_all_a soup) {} []) \<Longrightarrow> url a \<noteq> u"
  proof (rule links_loop_no_url [OF True])
    show "u \<in> {} \<or> (case map fst (filter (\<lambda>(x, anc). strip (or_empty (href x)) = u
                                   \<and> \<not> is_noise_url L u (get_text [] x)) (find_all_a soup)) of
                    [] \<Rightarrow> True | c # _ \<Rightarrow> length (get_text [] c) < 10)"
      using assms by (simp add: candidates_def)
  qed simp_all
  then show ?thesis by (auto simp: extract_by_links_def)
next
  case False
  have "\<And>a. a \<in> set (links_loop L (find_all_a soup) {} []) \<Longrightarrow> startswith (url a) HTTP"
  proof -
    fix a assume "a \<in> set (links_loop L (find_all_a soup) {} [])"
    then show "startswith (url a) HTTP" by (rule links_loop_http [rotated]) simp
  qed
  with False show ?thesis by (auto simp: extract_by_links_def)
qed

theorem short_first_anchor_hides_url_witness:
  "candidates ascii_lib (py ''https://example.com/news/story'') dup_doc
     = [Tag (py ''a'') [(py ''href'', py ''https://example.com/news/story'')]
          [Text NavigableString (py ''Read'')],
        Tag (py ''a'') [(py ''href'', py ''https://example.com/news/story'')]
          [Text NavigableString (py ''A much longer anchor title'')]]
   \<and> length (get_text [] (Tag (py ''a'') [(py ''href'', py ''https://example.com/news/story'')]
          [Text NavigableString (py ''Read'')])) < 10
   \<and> 10 \<le> length (get_text [] (Tag (py ''a'')
          [(py ''href'', py ''https://example.com/news/story'')]
          [Text NavigableString (py ''A much longer anchor title'')]))
   \<and> py ''https://example.com/news/story''
        \<notin> set (map url (extract_by_links ascii_lib dup_doc))"
proof -
  let ?u = "py ''https://example.com/news/story''"
  let ?a1 = "Tag (py ''a'') [(py ''href'', ?u)] [Text NavigableString (py ''Read'')]"
  let ?a2 = "Tag (py ''a'') [(py ''href'', ?u)] [Text NavigableString (py ''A much longer anchor title'')]"
  have c: "candidates ascii_lib ?u dup_doc = [?a1, ?a2]"
    by (simp add: candidates_def dup_doc_def dom_ev str_ev noise_ev)
  have l1: "length (get_text [] ?a1) < 10"
    by (simp add: get_text_def interesting_string_types_def str_ev)
  have l2: "10 \<le> length (get_text [] ?a2)"
    by (simp add: get_text_def interesting_string_types_def str_ev)
  from short_first_anchor_hides_url [OF c l1] c l1 l2 show ?thesis by blast
qed

section \<open>The blurb limit\<close>

lemma dropWhile_none: "\<forall>c \<in> set s. \<not> P c \<Longrightarrow> dropWhile P s = s"
  by (cases s) auto

lemma strip_no_space: "\<forall>c \<in> set s. \<not> isspace c \<Longrightarrow> strip s = s"
  by (simp add: strip_def dropWhile_none)

lemma collapse_ws_no_space: "\<forall>c \<in> set s. \<not> isspace c \<Longrightarrow> collapse_ws s = s"
  by (induction s) auto

lemma isspace_SP: "isspace SP"
  by (simp add: isspace_def SP_def)

lemma rsplit1_head_length: "length (rsplit1_head d s) \<le> length s"
proof -
  have "length (tl (dropWhile (\<lambda>c. c \<noteq> d) (rev s))) \<le> length (rev s)"
    using length_dropWhile_le [of "\<lambda>c. c \<noteq> d" "rev s"] by simp
  then show ?thesis by (simp add: rsplit1_head_def)
qed

lemma trim_blurb_length: "length (trim_blurb b) \<le> MAX_BLURB_CHARS + 2"
proof (cases "length b > MAX_BLURB_CHARS")
  case True
  have "length (rsplit1_head SP (take MAX_BLURB_CHARS b)) \<le> MAX_BLURB_CHARS"
    using rsplit1_head_length [of SP "take MAX_BLURB_CHARS b"] by simp
  with True show ?thesis by (simp add: trim_blurb_def)
next
  case False
  then show ?thesis by (simp add: trim_blurb_def)
qed

lemma extract_blurb_length: "length (extract_blurb L c t) \<le> MAX_BLURB_CHARS + 2"
  unfolding extract_blurb_def Let_def by (rule trim_blurb_length)

lemma trim_blurb_long_word:
  assumes "\<forall>c \<in> set b. \<not> isspace c" and "length b > MAX_BLURB_CHARS"
  shows "trim_blurb b = take MAX_BLURB_CHARS b @ [SP, ELLIPSIS]"
proof -
  have "SP \<notin> set (take MAX_BLURB_CHARS b)"
    using assms(1) isspace_SP by (auto dest: in_set_takeD)
  with assms(2) show ?thesis by (simp add: trim_blurb_def rsplit1_head_def)
qed

lemma extract_blurb_long_word:
  assumes "\<forall>c \<in> set s. \<not> isspace c" and "length s > MAX_BLURB_CHARS"
  shows "extract_blurb L s [] = take MAX_BLURB_CHARS s @ [SP, ELLIPSIS]"
  using assms
  by (simp add: extract_blurb_def Let_def startswith_def strip_no_space
        collapse_ws_no_space trim_blurb_long_word)

lemma finalise_blurb_long_word:
  assumes "\<forall>c \<in> set (raw_text b). \<not> isspace c" and "length (raw_text b) > MAX_BLURB_CHARS"
    and "b_title b = []"
  shows "blurb (finalise L b) = take MAX_BLURB_CHARS (raw_text b) @ [SP, ELLIPSIS]"
  using assms
  by (simp add: finalise_def Let_def startswith_def strip_no_space
        collapse_ws_no_space trim_blurb_long_word)

text \<open>
  Claim C4.  The blurb is meant to be at most 600 characters long.  The code cuts the text
  to 600 characters, keeps what precedes the last space of the cut, and then appends a
  space and an ellipsis; when the cut has no space, or its last space is the 600th
  character, the result is longer than 600.  For 601 letters without a space both
  \<open>_extract_blurb\<close> and \<open>_finalise\<close> give a blurb of 602 characters.
\<close>

theorem blurb_exceeds_limit:
  "length (extract_blurb L (replicate 601 97) []) = 602
   \<and> length (blurb (finalise L long_word_bucket)) = 602
   \<and> MAX_BLURB_CHARS < 602"
proof -
  have ns: "\<forall>c \<in> set (replicate 601 (97::nat)). \<not> isspace c"
    by (simp add: isspace_def)
  have len: "length (replicate 601 (97::nat)) > MAX_BLURB_CHARS"
    by (simp add: MAX_BLURB_CHARS_def)
  have 1: "length (extract_blurb L (replicate 601 97) []) = 602"
    by (simp add: extract_blurb_long_word [OF ns len] MAX_BLURB_CHARS_def)
  have 2: "length (blurb (finalise L long_word_bucket)) = 602"
    using ns len
    by (simp add: finalise_blurb_long_word long_word_bucket_def MAX_BLURB_CHARS_def)
  from 1 2 show ?thesis by (simp add: MAX_BLURB_CHARS_def)
qed

section \<open>The fallback title\<close>

lemma collapse_ws_chars: "c \<in> set (collapse_ws s) \<Longrightarrow> c = SP \<or> \<not> isspace c"
proof (induction s rule: collapse_ws.induct)
  case 1
  then show ?case by simp
next
  case (2 x xs)
  then show ?case by (auto split: if_splits)
qed

lemma set_strip: "set (strip s) \<subseteq> set s"
proof -
  have "set (dropWhile isspace (rev (dropWhile isspace s))) \<subseteq> set (rev (dropWhile isspace s))"
    by (rule set_dropWhileD [THEN subsetI])
  also have "\<dots> \<subseteq> set s"
    using set_dropWhileD [of _ isspace s] by auto
  finally show ?thesis by (simp add: strip_def)
qed

lemma dropWhile_hd: "xs \<noteq> [] \<Longrightarrow> \<not> P (hd xs) \<Longrightarrow> dropWhile P xs = xs"
  by (cases xs) auto

lemma strip_idem: "strip (strip s) = strip s"
proof -
  let ?d = "dropWhile isspace s"
  let ?e = "dropWhile isspace (rev ?d)"
  have e: "dropWhile isspace ?e = ?e" by (rule dropWhile_idem)
  have "dropWhile isspace (rev ?e) = rev ?e"
  proof (cases "?e = []")
    case True
    then have "rev ?e = []" by (simp only: rev_is_Nil_conv)
    then show ?thesis by (simp only: dropWhile.simps)
  next
    case False
    have "rev ?d = takeWhile isspace (rev ?d) @ ?e" by simp
    then have "?d = rev ?e @ rev (takeWhile isspace (rev ?d))"
      by (metis rev_append rev_rev_ident)
    with False have "hd (rev ?e) = hd ?d" and "?d \<noteq> []"
      by (metis hd_append2 rev_is_Nil_conv, metis Nil_is_append_conv rev_is_Nil_conv)
    moreover from \<open>?d \<noteq> []\<close> have "\<not> isspace (hd ?d)" by (rule hd_dropWhile)
    ultimately show ?thesis using False by (simp add: dropWhile_hd)
  qed
  then show ?thesis by (simp add: strip_def e)
qed

lemma NL_not_in_text: "NL \<notin> set (strip (collapse_ws s))"
proof
  assume "NL \<in> set (strip (collapse_ws s))"
  then have "NL \<in> set (collapse_ws s)" using set_strip by blast
  then have "NL = SP \<or> \<not> isspace NL" by (rule collapse_ws_chars)
  then show False by (simp add: NL_def SP_def isspace_def)
qed

text \<open>
  For every document the loop over the lines is idle: the title is the whole normalised
  text when its length is strictly between 10 and 120, and the placeholder otherwise.
\<close>

lemma fallback_title_whole_text:
  "map title (extract_fallback soup) =
     [if 10 < length (strip (collapse_ws (get_text [SP] soup)))
          \<and> length (strip (collapse_ws (get_text [SP] soup))) < 120
      then strip (collapse_ws (get_text [SP] soup)) else NEWSLETTER]"
proof -
  let ?text = "strip (collapse_ws (get_text [SP] soup))"
  have "split_on NL ?text = [?text]"
    by (rule split_on_no_separator) (rule NL_not_in_text)
  then show ?thesis
    by (simp add: extract_fallback_def Let_def strip_idem)
qed

text \<open>
  Claim C5.  The fallback title is meant to be the first line of the visible text whose
  length is strictly between 10 and 120.  The code collapses every run of whitespace,
  newlines included, into one space before it splits the text at newlines, so the loop
  over the lines sees the whole text as its only line.  For a paragraph of two lines the
  title is both lines joined by a space, not the first line.
\<close>

theorem fallback_title_ignores_lines:
  "map title (extract_fallback two_line_doc) = [py ''Hello world today second line here ok'']
   \<and> spec_fallback_title two_line_doc = py ''Hello world today''
   \<and> py ''Hello world today second line here ok'' \<noteq> py ''Hello world today''"
  by (simp add: extract_fallback_def spec_fallback_title_def two_line_doc_def get_text_def
        interesting_string_types_def NEWSLETTER_def Let_def str_ev)

section \<open>Strategy precedence\<close>

lemma has_word_iff: "has_word s \<longleftrightarrow> (\<exists>c \<in> set s. \<not> isspace c)"
  by (simp add: has_word_def list_ex_iff)

lemma dropWhile_keeps: "c \<in> set xs \<Longrightarrow> \<not> P c \<Longrightarrow> c \<in> set (dropWhile P xs)"
  by (induction xs) auto

lemma strip_keeps: "c \<in> set s \<Longrightarrow> \<not> isspace c \<Longrightarrow> c \<in> set (strip s)"
  by (simp add: strip_def dropWhile_keeps)

lemma collapse_ws_keeps: "c \<in> set s \<Longrightarrow> \<not> isspace c \<Longrightarrow> c \<in> set (collapse_ws s)"
proof (induction s rule: collapse_ws.induct)
  case 1
  then show ?case by simp
next
  case (2 x xs)
  show ?case
  proof (cases "isspace x")
    case True
    with "2.prems" have "c \<in> set xs" by auto
    then have "c \<in> set (dropWhile isspace xs)"
      using "2.prems"(2) by (rule dropWhile_keeps)
    with "2.IH"(1) [OF True] "2.prems"(2) True show ?thesis by simp
  next
    case False
    with "2.prems" "2.IH"(2) show ?thesis by auto
  qed
qed

lemma split_ws_has_word: "has_word s \<Longrightarrow> split_ws s \<noteq> []"
proof (induction s rule: split_ws.induct)
  case 1
  then show ?case by (simp add: has_word_def)
next
  case (2 x xs)
  then show ?case by (cases "isspace x") (auto simp: has_word_def)
qed

lemma finalise_has_word: "has_word (raw_text b) \<Longrightarrow> 0 < word_count (finalise L b)"
proof -
  assume "has_word (raw_text b)"
  then obtain c where "c \<in> set (raw_text b)" "\<not> isspace c"
    by (auto simp: has_word_iff)
  then have "c \<in> set (strip (collapse_ws (raw_text b)))"
    by (simp add: strip_keeps collapse_ws_keeps)
  with \<open>\<not> isspace c\<close> have "has_word (strip (collapse_ws (raw_text b)))"
    by (auto simp: has_word_iff)
  then show ?thesis by (simp add: split_ws_has_word)
qed

text \<open>One turn of the loop over the children of the body\<close>

lemma sections_loop_step:
  "\<exists>cur' arts'.
      sections_loop L (e # es) cur arts = sections_loop L es cur' arts'
    \<and> (if is_heading e
       then arts' = close_bucket L cur arts \<and> cur' \<noteq> None
       else arts' = arts
          \<and> (\<forall>b. cur = Some b \<longrightarrow>
                (\<exists>b'. cur' = Some b' \<and> set (raw_text b) \<subseteq> set (raw_text b')
                      \<and> (node_has_word e \<longrightarrow> has_word (raw_text b')))))"
proof (cases e)
  case (Text k s)
  show ?thesis
  proof (cases cur)
    case None
    with Text show ?thesis by (auto simp: is_heading_def)
  next
    case (Some b)
    have "has_word s \<Longrightarrow> has_word (raw_text b @ strip s @ [SP])"
      by (auto simp: has_word_iff strip_keeps)
    with Text Some show ?thesis by (auto simp: is_heading_def)
  qed
next
  case (Tag n at cs)
  show ?thesis
  proof (cases "n = py ''h2'' \<or> n = py ''h3''")
    case True
    with Tag show ?thesis by (auto simp: is_heading_def Let_def)
  next
    case False
    show ?thesis
    proof (cases cur)
      case None
      with Tag False show ?thesis by (auto simp: is_heading_def)
    next
      case (Some b)
      have "has_word (get_text [SP] e) \<Longrightarrow> has_word (raw_text b @ get_text [SP] e @ [SP])"
        by (auto simp: has_word_iff)
      with Tag False Some show ?thesis
        by (auto simp: is_heading_def Let_def)
    qed
  qed
qed

lemma close_bucket_grows: "set arts \<subseteq> set (close_bucket L cur arts)"
  by (cases cur) (auto simp: close_bucket_def)

lemma sections_loop_keeps_words:
  "\<exists>a \<in> set arts. 0 < word_count a \<Longrightarrow>
   \<exists>a \<in> set (sections_loop L es cur arts). 0 < word_count a"
proof (induction es arbitrary: cur arts)
  case Nil
  then show ?case using close_bucket_grows [of arts L cur] by auto
next
  case (Cons e es)
  from sections_loop_step [of L e es cur arts] obtain cur' arts' where
    eq: "sections_loop L (e # es) cur arts = sections_loop L es cur' arts'" and
    ar: "arts' = close_bucket L cur arts \<or> arts' = arts"
    by (auto split: if_splits)
  from ar Cons.prems have "\<exists>a \<in> set arts'. 0 < word_count a"
    using close_bucket_grows [of arts L cur] by auto
  then show ?case unfolding eq by (rule Cons.IH)
qed

lemma sections_loop_open_bucket:
  "has_word (raw_text b) \<Longrightarrow>
   \<exists>a \<in> set (sections_loop L es (Some b) arts). 0 < word_count a"
proof (induction es arbitrary: b arts)
  case Nil
  then have "0 < word_count (finalise L b)" by (rule finalise_has_word)
  then show ?case by (simp add: close_bucket_def)
next
  case (Cons e es)
  from sections_loop_step [of L e es "Some b" arts] obtain cur' arts' where
    eq: "sections_loop L (e # es) (Some b) arts = sections_loop L es cur' arts'" and
    st: "if is_heading e
       then arts' = close_bucket L (Some b) arts \<and> cur' \<noteq> None
       else arts' = arts
          \<and> (\<exists>b'. cur' = Some b' \<and> set (raw_text b) \<subseteq> set (raw_text b'))"
    by (auto split: if_splits)
  show ?case
  proof (cases "is_heading e")
    case True
    with st have "finalise L b \<in> set arts'" by (simp add: close_bucket_def)
    with Cons.prems have "\<exists>a \<in> set arts'. 0 < word_count a"
      using finalise_has_word by blast
    then show ?thesis unfolding eq by (rule sections_loop_keeps_words)
  next
    case False
    with st obtain b' where b': "cur' = Some b'" "set (raw_text b) \<subseteq> set (raw_text b')"
      by auto
    with Cons.prems have "has_word (raw_text b')" by (auto simp: has_word_iff)
    then show ?thesis unfolding eq b'(1) by (rule Cons.IH)
  qed
qed

lemma sections_loop_word_in_bucket:
  assumes "\<forall>m \<in> set mid. \<not> is_heading m" and "\<not> is_heading x" and "node_has_word x"
  shows "\<exists>a \<in> set (sections_loop L (mid @ x # post) (Some b) arts). 0 < word_count a"
  using assms(1)
proof (induction mid arbitrary: b)
  case Nil
  from sections_loop_step [of L x post "Some b" arts] assms(2,3) obtain b' where
    "sections_loop L (x # post) (Some b) arts = sections_loop L post (Some b') arts"
    "has_word (raw_text b')"
    by auto
  then show ?case using sections_loop_open_bucket [of b' L post arts] by simp
next
  case (Cons m mid)
  then have "\<not> is_heading m" by simp
  with sections_loop_step [of L m "mid @ x # post" "Some b" arts] obtain b' where
    "sections_loop L (m # mid @ x # post) (Some b) arts
       = sections_loop L (mid @ x # post) (Some b') arts"
    by auto
  with Cons show ?case by simp
qed

lemma sections_loop_prefix:
  "\<exists>cur' arts'. sections_loop L (pre @ es) cur arts = sections_loop L es cur' arts'"
proof (induction pre arbitrary: cur arts)
  case Nil
  show ?case by auto
next
  case (Cons p pre)
  from sections_loop_step [of L p "pre @ es" cur arts] obtain c1 a1 where
    "sections_loop L (p # pre @ es) cur arts = sections_loop L (pre @ es) c1 a1"
    by blast
  with Cons [of c1 a1] show ?case by auto
qed

lemma sections_not_empty:
  assumes "children (find_body soup) = pre @ h # mid @ x # post"
    and "is_heading h" and "\<forall>m \<in> set mid. \<not> is_heading m"
    and "\<not> is_heading x" and "node_has_word x"
  shows "extract_by_sections L soup \<noteq> []"
proof -
  from sections_loop_prefix [of L pre "h # mid @ x # post" None "[]"] obtain c1 a1 where
    1: "sections_loop L (pre @ h # mid @ x # post) None []
          = sections_loop L (h # mid @ x # post) c1 a1"
    by blast
  from sections_loop_step [of L h "mid @ x # post" c1 a1] assms(2) obtain b a2 where
    2: "sections_loop L (h # mid @ x # post) c1 a1 = sections_loop L (mid @ x # post) (Some b) a2"
    by auto
  from sections_loop_word_in_bucket [OF assms(3,4,5), of L post b a2] 1 2
  have "\<exists>a \<in> set (sections_loop L (children (find_body soup)) None []). 0 < word_count a"
    by (simp add: assms(1))
  then have "filter (\<lambda>a. 0 < word_count a) (sections_loop L (children (find_body soup)) None [])
              \<noteq> []"
    by (simp add: filter_empty_conv)
  then show ?thesis
    by (simp add: extract_by_sections_def Let_def)
qed

text \<open>
  Claim C1, as amended.  When a child of the body is an \<open>h2\<close> or \<open>h3\<close> heading and is
  followed, before the next such heading, by a child that is not a heading and has at
  least one word (a tag with such text, or ordinary text), \<open>extract_from_email\<close> returns
  the section articles, stamped and filtered by length, and nothing else: the section
  strategy yields at least one article, and the link strategy and the fallback are not
  consulted.
\<close>

theorem sections_take_precedence:
  assumes "html \<noteq> []"
    and "children (find_body (bs html)) = pre @ h # mid @ x # post"
    and "is_heading h" and "\<forall>m \<in> set mid. \<not> is_heading m"
    and "\<not> is_heading x" and "node_has_word x"
  shows "extract_by_sections L (bs html) \<noteq> []
       \<and> extract_from_email bs L html n e t =
           filter (\<lambda>a. MIN_WORD_COUNT \<le> word_count a)
             (map (stamp L n e t (is_essay_newsletter L n)) (extract_by_sections L (bs html)))"
proof -
  have "extract_by_sections L (bs html) \<noteq> []"
    using assms(2-6) by (rule sections_not_empty)
  with assms(1) show ?thesis
    by (simp add: extract_from_email_def Let_def stamp_loop_eq)
qed

theorem sections_take_precedence_witness:
  "py ''<html>'' \<noteq> []
   \<and> length (children (find_body section_doc)) = 2
   \<and> is_heading (children (find_body section_doc) ! 0)
   \<and> \<not> is_heading (children (find_body section_doc) ! 1)
   \<and> node_has_word (children (find_body section_doc) ! 1)
   \<and> extract_by_sections ascii_lib section_doc \<noteq> []
   \<and> extract_from_email (\<lambda>_. section_doc) ascii_lib (py ''<html>'') [] [] [] =
       filter (\<lambda>a. MIN_WORD_COUNT \<le> word_count a)
         (map (stamp ascii_lib [] [] [] (is_essay_newsletter ascii_lib []))
            (extract_by_sections ascii_lib section_doc))"
proof -
  let ?h = "Tag (py ''h2'') [] [Text NavigableString (py ''Heading'')]"
  let ?p = "Tag (py ''p'') []
             [Tag (py ''a'') [(py ''href'', py ''https://example.com/news/story'')]
                [Text NavigableString (py ''A long anchor text'')],
              Text NavigableString words100]"
  have h: "py ''<html>'' \<noteq> []" by (simp add: py_def)
  have c: "children (find_body section_doc) = [?h, ?p]"
    by (simp add: section_doc_def find_body_def py_def)
  then have c': "children (find_body ((\<lambda>_. section_doc) (py ''<html>''))) = [] @ ?h # [] @ ?p # []"
    by simp
  have ih: "is_heading ?h" by (simp add: is_heading_def)
  have ip: "\<not> is_heading ?p" by (simp add: is_heading_def py_def)
  have im: "\<forall>m \<in> set []. \<not> is_heading m" by simp
  have w: "node_has_word ?p"
    by (simp add: has_word_def get_text_def interesting_string_types_def words100_def str_ev)
  from sections_take_precedence [OF h c' ih im ip w, of ascii_lib "[]" "[]" "[]"] h c ih ip w
  show ?thesis by simp
qed

text \<open>
  The claim as stated fails for a document whose heading and anchor lie below a \<open>div\<close>:
  it contains a heading and an anchor, the section strategy finds nothing, and what
  \<open>extract_from_email\<close> returns is the output of the link strategy.
\<close>

theorem sections_take_precedence_counterexample:
  "has_heading nested_doc \<and> has_anchor nested_doc
   \<and> extract_by_sections ascii_lib nested_doc = []
   \<and> map url_words (extract_by_links ascii_lib nested_doc)
       = [(py ''https://example.com/news/story'', 104)]
   \<and> extract_from_email (\<lambda>_. nested_doc) ascii_lib (py ''<html>'') [] [] []
       = map (stamp ascii_lib [] [] [] (is_essay_newsletter ascii_lib []))
           (extract_by_links ascii_lib nested_doc)"
proof -
  have hh: "has_heading nested_doc"
    by (simp add: has_heading_def nested_doc_def py_def)
  have ha: "has_anchor nested_doc"
    by (simp add: has_anchor_def nested_doc_def dom_ev str_ev)
  from nested_doc_links obtain a where
    l: "extract_by_links ascii_lib nested_doc = [a]" and w: "word_count a = 104"
    by (auto simp: url_words_def)
  have h: "py ''<html>'' \<noteq> []" by (simp add: py_def)
  have "extract_from_email (\<lambda>_. nested_doc) ascii_lib (py ''<html>'') [] [] []
       = map (stamp ascii_lib [] [] [] (is_essay_newsletter ascii_lib []))
           (extract_by_links ascii_lib nested_doc)"
    by (simp add: extract_from_email_def Let_def stamp_loop_eq nested_doc_sections h l w
          MIN_WORD_COUNT_def)
  with hh ha nested_doc_sections nested_doc_links show ?thesis by blast
qed

text \<open>
  The section strategy needs a heading among the children of the body: without one it
  yields nothing, wherever else the document has headings.
\<close>

lemma sections_loop_no_heading:
  "\<forall>c \<in> set es. name_of c \<noteq> Some (py ''h2'') \<and> name_of c \<noteq> Some (py ''h3'') \<Longrightarrow>
   sections_loop L es None arts = arts"
proof (induction es)
  case Nil
  then show ?case by (simp add: close_bucket_def)
next
  case (Cons c es)
  then show ?case by (cases c) auto
qed

lemma sections_need_top_level_heading:
  "\<forall>c \<in> set (children (find_body soup)).
      name_of c \<noteq> Some (py ''h2'') \<and> name_of c \<noteq> Some (py ''h3'') \<Longrightarrow>
   extract_by_sections L soup = []"
  by (simp add: extract_by_sections_def Let_def sections_loop_no_heading)

section \<open>The caller's metadata\<close>

lemma stamp_metadata:
  "newsletter_name (stamp L n e t f a) = Some n \<and> newsletter_email (stamp L n e t f a) = Some e
   \<and> received_timestamp (stamp L n e t f a) = Some t"
  by (simp add: stamp_def Let_def)

lemma stamp_timestamp_only:
  "(stamp L n e t f a)\<lparr>received_timestamp := None\<rparr> = (stamp L n e t' f a)\<lparr>received_timestamp := None\<rparr>"
  by (simp add: stamp_def Let_def classify_def)

lemma timestamp_only_in_its_field:
  "map (\<lambda>a. a\<lparr>received_timestamp := None\<rparr>) (extract_from_email bs L html n e t)
     = map (\<lambda>a. a\<lparr>received_timestamp := None\<rparr>) (extract_from_email bs L html n e t')"
proof -
  have "\<And>xs. map (\<lambda>a. a\<lparr>received_timestamp := None\<rparr>)
              (filter (\<lambda>a. MIN_WORD_COUNT \<le> word_count a) (map (stamp L n e t f) xs))
            = map (\<lambda>a. a\<lparr>received_timestamp := None\<rparr>)
              (filter (\<lambda>a. MIN_WORD_COUNT \<le> word_count a) (map (stamp L n e t' f) xs))" for f
  proof -
    fix xs show "?thesis xs"
      by (induction xs) (simp_all add: stamp_timestamp_only)
  qed
  then show ?thesis
    by (simp add: extract_from_email_def Let_def stamp_loop_eq)
qed

end
